theory Spec2Isabelle
  imports Main
begin

section \<open>Data model of \<open>streamMulti\<close>\<close>

text \<open>
  The development embeds \<open>streamMulti\<close> of \<open>Message.tsx\<close>: the loop that reads the forked
  event stream, the closures \<open>appendUI\<close>, \<open>addSegment\<close>, \<open>streamTextSegment\<close>,
  \<open>streamToolSegment\<close>, \<open>markLastSegmentDone\<close> and \<open>handleRender\<close>, and the variables they
  share (\<open>segments\<close>, \<open>initialRemoved\<close>, \<open>finished\<close>).

  Thrown values and tool arguments are opaque to the code and are strings here.

  The sinks made by \<open>createStreamableUI\<close> and \<open>createStreamableValue\<close>, the observer
  \<open>onSegment\<close> and the renderers are external to the code: the calls made on sinks and
  observer are recorded in a trace and return normally, and a renderer is given by
  what its call does. The code runs on one thread; what interleaves are the steps of
  the read loop and the continuations of suspended \<open>handleRender\<close> calls, in any order.
\<close>

type_synonym err = string

text \<open>
  The React nodes that travel through the sinks: the \<open>initial\<close> placeholder, the text
  component bound to the streamable value with a given number, the wrapper
  \<open>div className="tool mt-4"\<close> around the streamable UI with a given number, the
  \<open>Tool not found\<close> node, and whatever a renderer produces.
\<close>

datatype node =
    Placeholder
  | TextComponent nat
  | ToolWrapper nat
  | ToolNotFound
  | Rendered string

datatype toolCall = ToolCallValue (toolCallId: string) (toolName: string) (args: string)

text \<open>
  The parts of \<open>fullStream\<close>. The \<open>switch\<close> of the loop has five cases and no default:
  every other part type is \<open>OtherPart\<close>.
\<close>

datatype event =
    TextDelta string
  | ToolCallDelta string
  | ToolCall toolCall
  | ErrorEvent err
  | Finish
  | OtherPart

text \<open>
  A text segment holds its accumulated text and a reference to its streamable value (the
  number of the \<open>createStreamableValue\<close> call that made it).
\<close>

datatype segment =
    TextSegment string nat
  | ToolCallSegment toolCall

fun is_text :: "segment \<Rightarrow> bool" where
  "is_text (TextSegment t sid) = True"
| "is_text (ToolCallSegment c) = False"

text \<open>
  What a call \<open>renderer(...args)\<close> can do, in the order \<open>handleRender\<close> tests for it: throw;
  return a promise (that later rejects or resolves); return an async generator or a
  generator (the values it yields, then its failure or its return value); return a plain
  value.
\<close>

datatype rendering =
    Throws err
  | Deferred "err + node"
  | AsyncGenerator "node list" "err + node"
  | Generator "node list" "err + node"
  | Plain node

datatype tool = Tool (generate: "(string \<Rightarrow> rendering) option")

record config =
  tools :: "string \<Rightarrow> tool option"
  onSegment :: bool
  initial :: node

text \<open>
  Every call made on an external object is recorded, in the order the calls are made:
  on the overall display sink \<open>ui\<close>; on a per-segment text sink (a streamable value); on a
  per-tool sink \<open>toolUi\<close>; and on the observer \<open>onSegment\<close>, with the segment as it is at the
  call. \<open>SetInitialRemoved\<close> records the assignment \<open>initialRemoved = true\<close>.
\<close>

datatype effect =
    UiUpdate node
  | UiAppend node
  | UiDone
  | UiError err
  | CreateStreamableValue nat string
  | StreamAppend nat string
  | StreamDone nat
  | CreateStreamableUI nat
  | ToolUiUpdate nat node
  | ToolUiDone nat node
  | OnSegment segment
  | SetInitialRemoved

text \<open>
  A call of \<open>handleRender\<close> that got past \<open>if (!renderer) return\<close>: the sink \<open>res\<close> it writes
  to, its \<open>lastCall\<close> argument, where the call stands (running, suspended at
  \<open>await value\<close> or at \<open>await it.next()\<close>, returned, or left by a throw), and whether its
  resolvable promise has been resolved. The \<open>k\<close>-th such call owns the \<open>k\<close>-th resolvable.
\<close>

datatype phase =
    Running
  | AwaitingValue "err + node"
  | AwaitingNext "node list" "err + node"
  | Returned
  | Rejected err

record task =
  res :: nat
  lastCall :: bool
  phase :: phase
  resolved :: bool

text \<open>
  The value of \<open>finished\<close>: the first resolvable promise, or
  \<open>finished.then(() => resolvable.promise)\<close>.
\<close>

datatype promise =
    Resolvable nat
  | Then promise nat

fun settled :: "task list \<Rightarrow> promise \<Rightarrow> bool" where
  "settled ts (Resolvable k) = (k < length ts \<and> resolved (ts ! k))"
| "settled ts (Then p k) = (settled ts p \<and> k < length ts \<and> resolved (ts ! k))"

text \<open>
  Where the anonymous async function stands: in the read loop, at \<open>await finished\<close>,
  returned, or left through \<open>catch\<close>.
\<close>

datatype status = Reading | AwaitingFinished | Completed | Failed

record state =
  segments :: "segment list"
  initialRemoved :: bool
  finished :: "promise option"
  content :: string
  tasks :: "task list"
  streamables :: nat
  toolUis :: nat
  status :: status
  trace :: "effect list"

definition init :: state where
  "init = \<lparr> segments = [], initialRemoved = False, finished = None, content = [],
            tasks = [], streamables = 0, toolUis = 0, status = Reading, trace = [] \<rparr>"

section \<open>The closures of \<open>streamMulti\<close>\<close>

definition emit :: "effect \<Rightarrow> state \<Rightarrow> state" where
  "emit e s = s\<lparr> trace := trace s @ [e] \<rparr>"

definition appendUI :: "node \<Rightarrow> state \<Rightarrow> state" where
  "appendUI component s =
     (if initialRemoved s then emit (UiAppend component) s
      else emit (UiUpdate component) (emit SetInitialRemoved (s\<lparr> initialRemoved := True \<rparr>)))"

text \<open>\<open>segments[segments.length - 1]\<close> is \<open>undefined\<close> on the empty array.\<close>

definition latestSegment :: "state \<Rightarrow> segment option" where
  "latestSegment s = (if segments s = [] then None else Some (last (segments s)))"

definition markLastSegmentDone :: "config \<Rightarrow> state \<Rightarrow> state" where
  "markLastSegmentDone cfg s =
     (case latestSegment s of
        None \<Rightarrow> s
      | Some latest \<Rightarrow>
          let s1 = (case latest of
                      TextSegment t sid \<Rightarrow> emit (StreamDone sid) s
                    | ToolCallSegment c \<Rightarrow> s)
          in if onSegment cfg then emit (OnSegment latest) s1 else s1)"

definition addSegment :: "config \<Rightarrow> segment \<Rightarrow> state \<Rightarrow> state" where
  "addSegment cfg seg s =
     (let s1 = markLastSegmentDone cfg s in s1\<lparr> segments := segments s1 @ [seg] \<rparr>)"

definition streamTextSegment :: "config \<Rightarrow> string \<Rightarrow> state \<Rightarrow> state" where
  "streamTextSegment cfg textDelta s =
     (case latestSegment s of
        Some (TextSegment t sid) \<Rightarrow>
          emit (StreamAppend sid textDelta)
            (s\<lparr> segments := butlast (segments s) @ [TextSegment (t @ textDelta) sid] \<rparr>)
      | _ \<Rightarrow>
          let sid = streamables s;
              s1 = emit (CreateStreamableValue sid textDelta) (s\<lparr> streamables := sid + 1 \<rparr>);
              s2 = appendUI (TextComponent sid) s1
          in addSegment cfg (TextSegment textDelta sid) s2)"

text \<open>
  One call on the sink of a render task: \<open>res.done(value)\<close> when \<open>lastCall\<close> holds (and, in
  a generator loop, \<open>done\<close> too), \<open>res.update(value)\<close> otherwise.
\<close>

definition deliver :: "nat \<Rightarrow> bool \<Rightarrow> node \<Rightarrow> state \<Rightarrow> state" where
  "deliver r final v s = emit (if final then ToolUiDone r v else ToolUiUpdate r v) s"

fun updates :: "nat \<Rightarrow> node list \<Rightarrow> state \<Rightarrow> state" where
  "updates r [] s = s"
| "updates r (v # vs) s = updates r vs (emit (ToolUiUpdate r v) s)"

definition setTask :: "nat \<Rightarrow> (task \<Rightarrow> task) \<Rightarrow> state \<Rightarrow> state" where
  "setTask k f s = s\<lparr> tasks := (tasks s)[k := f (tasks s ! k)] \<rparr>"

text \<open>\<open>resolvable.resolve(void 0)\<close> followed by the return of the call.\<close>

definition resolve :: "nat \<Rightarrow> state \<Rightarrow> state" where
  "resolve k s = setTask k (\<lambda>t. t\<lparr> phase := Returned, resolved := True \<rparr>) s"

text \<open>A throw inside the async function rejects the promise of the call, which nobody holds.\<close>

definition reject :: "nat \<Rightarrow> err \<Rightarrow> state \<Rightarrow> state" where
  "reject k e s = setTask k (\<lambda>t. t\<lparr> phase := Rejected e \<rparr>) s"

text \<open>
  \<open>handleRender\<close> up to its first \<open>await\<close>. A promise and an async generator suspend the
  call; a generator is run to its end and a plain value is delivered within the call.
\<close>

definition handleRender ::
    "string \<Rightarrow> (string \<Rightarrow> rendering) option \<Rightarrow> nat \<Rightarrow> bool \<Rightarrow> state \<Rightarrow> state" where
  "handleRender payload renderer r lc s =
     (case renderer of
        None \<Rightarrow> s
      | Some f \<Rightarrow>
          let k = length (tasks s);
              s1 = s\<lparr> finished := (case finished s of
                                      Some p \<Rightarrow> Some (Then p k)
                                    | None \<Rightarrow> Some (Resolvable k)) \<rparr>;
              new = (\<lambda>ph. s1\<lparr> tasks := tasks s1 @
                         [\<lparr> res = r, lastCall = lc, phase = ph, resolved = False \<rparr>] \<rparr>)
          in (case f payload of
                Throws e \<Rightarrow> new (Rejected e)
              | Deferred out \<Rightarrow> new (AwaitingValue out)
              | AsyncGenerator vs out \<Rightarrow> new (AwaitingNext vs out)
              | Generator vs out \<Rightarrow>
                  (let s2 = updates r vs (new Running)
                   in case out of
                        Inl e \<Rightarrow> reject k e s2
                      | Inr v \<Rightarrow> resolve k (deliver r lc v s2))
              | Plain v \<Rightarrow> resolve k (deliver r lc v (new Running))))"

definition streamToolSegment :: "config \<Rightarrow> toolCall \<Rightarrow> state \<Rightarrow> state" where
  "streamToolSegment cfg v s =
     (let tid = toolUis s;
          s1 = emit (CreateStreamableUI tid) (s\<lparr> toolUis := tid + 1 \<rparr>);
          s2 = appendUI (ToolWrapper tid) s1;
          s3 = (case tools cfg (toolName v) of
                  Some tool \<Rightarrow> handleRender (args v) (generate tool) tid True s2
                | None \<Rightarrow> emit (ToolUiDone tid ToolNotFound) s2)
      in addSegment cfg (ToolCallSegment v) s3)"

section \<open>The read loop and the suspended render tasks\<close>

text \<open>
  One awaited promise of render task \<open>k\<close> settles and the call runs to its next \<open>await\<close> or
  to its end.
\<close>

definition settle :: "nat \<Rightarrow> state \<Rightarrow> state" where
  "settle k s =
     (if k < length (tasks s) then
        (let t = tasks s ! k in
         case phase t of
           Running \<Rightarrow> s
         | AwaitingValue (Inl e) \<Rightarrow> reject k e s
         | AwaitingValue (Inr v) \<Rightarrow> resolve k (deliver (res t) (lastCall t) v s)
         | AwaitingNext (v # vs) out \<Rightarrow>
             setTask k (\<lambda>t. t\<lparr> phase := AwaitingNext vs out \<rparr>) (emit (ToolUiUpdate (res t) v) s)
         | AwaitingNext [] (Inl e) \<Rightarrow> reject k e s
         | AwaitingNext [] (Inr v) \<Rightarrow> resolve k (deliver (res t) (lastCall t) v s)
         | Returned \<Rightarrow> s
         | Rejected e \<Rightarrow> s)
      else s)"

text \<open>The body of the \<open>switch\<close> for one part read from the stream.\<close>

definition onPart :: "config \<Rightarrow> event \<Rightarrow> state \<Rightarrow> state" where
  "onPart cfg ev s =
     (case ev of
        TextDelta d \<Rightarrow> (streamTextSegment cfg d s)\<lparr> content := content s @ d \<rparr>
      | ToolCallDelta d \<Rightarrow> s
      | ToolCall v \<Rightarrow> streamToolSegment cfg v s
      | ErrorEvent e \<Rightarrow> emit (UiError e) (s\<lparr> status := Failed \<rparr>)
      | Finish \<Rightarrow> markLastSegmentDone cfg s
      | OtherPart \<Rightarrow> s)"

text \<open>\<open>reader.read()\<close> reports \<open>done\<close>: \<open>ui.done()\<close>, \<open>break\<close>, then \<open>if (finished) await finished\<close>.\<close>

definition onDone :: "state \<Rightarrow> state" where
  "onDone s =
     (let s1 = emit UiDone s
      in case finished s1 of
           None \<Rightarrow> s1\<lparr> status := Completed \<rparr>
         | Some p \<Rightarrow> s1\<lparr> status := AwaitingFinished \<rparr>)"

text \<open>
  What can happen next: the reader yields a part, the reader reports the end of the
  stream, an awaited promise of a render task settles, or \<open>await finished\<close> returns.
  The first two concern the loop only while it reads.
\<close>

datatype action = Next event | End | Settle nat | Wake

definition step :: "config \<Rightarrow> action \<Rightarrow> state \<Rightarrow> state" where
  "step cfg a s =
     (case a of
        Next ev \<Rightarrow> (if status s = Reading then onPart cfg ev s else s)
      | End \<Rightarrow> (if status s = Reading then onDone s else s)
      | Settle k \<Rightarrow> settle k s
      | Wake \<Rightarrow>
          (case finished s of
             Some p \<Rightarrow> (if status s = AwaitingFinished \<and> settled (tasks s) p
                        then s\<lparr> status := Completed \<rparr> else s)
           | None \<Rightarrow> s))"

fun exec :: "config \<Rightarrow> action list \<Rightarrow> state \<Rightarrow> state" where
  "exec cfg [] s = s"
| "exec cfg (a # as) s = exec cfg as (step cfg a s)"

section \<open>Observations on a run\<close>

text \<open>
  The parts the loop has read when the actions \<open>as\<close> have happened, starting in the read
  loop: the loop stops reading at an \<open>error\<close> part and at the end of the stream.
\<close>

fun consumed :: "action list \<Rightarrow> event list" where
  "consumed [] = []"
| "consumed (Next (ErrorEvent e) # as) = [ErrorEvent e]"
| "consumed (Next ev # as) = ev # consumed as"
| "consumed (End # as) = []"
| "consumed (a # as) = consumed as"

text \<open>The calls that place a component on the overall display sink, and the components placed.\<close>

fun is_placement :: "effect \<Rightarrow> bool" where
  "is_placement (UiUpdate c) = True"
| "is_placement (UiAppend c) = True"
| "is_placement e = False"

definition placements :: "effect list \<Rightarrow> effect list" where
  "placements tr = filter is_placement tr"

fun shown :: "effect list \<Rightarrow> node list" where
  "shown [] = []"
| "shown (UiUpdate c # tr) = c # shown tr"
| "shown (UiAppend c # tr) = c # shown tr"
| "shown (e # tr) = shown tr"




text \<open>The calls that close a segment, and the segments handed to the observer.\<close>

fun is_closing :: "effect \<Rightarrow> bool" where
  "is_closing (StreamDone sid) = True"
| "is_closing (OnSegment seg) = True"
| "is_closing e = False"

definition closings :: "effect list \<Rightarrow> effect list" where
  "closings tr = filter is_closing tr"

fun notified :: "effect list \<Rightarrow> segment list" where
  "notified [] = []"
| "notified (OnSegment seg # tr) = seg # notified tr"
| "notified (e # tr) = notified tr"

text \<open>The calls \<open>markLastSegmentDone\<close> makes for a latest segment.\<close>

definition closing :: "config \<Rightarrow> segment \<Rightarrow> effect list" where
  "closing cfg seg =
     (case seg of TextSegment t sid \<Rightarrow> [StreamDone sid] | ToolCallSegment c \<Rightarrow> []) @
     (if onSegment cfg then [OnSegment seg] else [])"

text \<open>Closing one segment with an observer present: seal the text sink, then notify.\<close>

fun sealed_then_notified :: "segment \<Rightarrow> effect list" where
  "sealed_then_notified (TextSegment t sid) = [StreamDone sid, OnSegment (TextSegment t sid)]"
| "sealed_then_notified (ToolCallSegment c) = [OnSegment (ToolCallSegment c)]"

text \<open>The calls of the read loop and its closures on everything but the per-tool sinks.\<close>

fun is_render_call :: "effect \<Rightarrow> bool" where
  "is_render_call (ToolUiUpdate r v) = True"
| "is_render_call (ToolUiDone r v) = True"
| "is_render_call e = False"

definition loopCalls :: "effect list \<Rightarrow> effect list" where
  "loopCalls tr = filter (\<lambda>e. \<not> is_render_call e) tr"




text \<open>
  The value \<open>finished\<close> has after \<open>n\<close> calls of \<open>handleRender\<close> with a renderer: the
  resolvables \<open>0 .. n - 1\<close> chained in the order of the calls.
\<close>

fun chain :: "nat \<Rightarrow> promise option" where
  "chain 0 = None"
| "chain (Suc n) = Some (case chain n of None \<Rightarrow> Resolvable n | Some p \<Rightarrow> Then p n)"

section \<open>Closed forms used in the proofs\<close>

text \<open>What \<open>appendUI\<close> and \<open>markLastSegmentDone\<close> add to the trace in a state.\<close>

definition placing :: "state \<Rightarrow> node \<Rightarrow> effect list" where
  "placing s c = (if initialRemoved s then [UiAppend c] else [SetInitialRemoved, UiUpdate c])"

definition closing_last :: "config \<Rightarrow> state \<Rightarrow> effect list" where
  "closing_last cfg s = (if segments s = [] then [] else closing cfg (last (segments s)))"

text \<open>What a call of \<open>handleRender\<close> with a renderer adds to the trace and to the tasks.\<close>

fun rendered_now :: "nat \<Rightarrow> bool \<Rightarrow> rendering \<Rightarrow> effect list" where
  "rendered_now r lc (Throws e) = []"
| "rendered_now r lc (Deferred out) = []"
| "rendered_now r lc (AsyncGenerator vs out) = []"
| "rendered_now r lc (Generator vs (Inl e)) = map (ToolUiUpdate r) vs"
| "rendered_now r lc (Generator vs (Inr v)) =
     map (ToolUiUpdate r) vs @ [if lc then ToolUiDone r v else ToolUiUpdate r v]"
| "rendered_now r lc (Plain v) = [if lc then ToolUiDone r v else ToolUiUpdate r v]"

fun task_after :: "nat \<Rightarrow> bool \<Rightarrow> rendering \<Rightarrow> task" where
  "task_after r lc (Throws e) = \<lparr> res = r, lastCall = lc, phase = Rejected e, resolved = False \<rparr>"
| "task_after r lc (Deferred out) =
     \<lparr> res = r, lastCall = lc, phase = AwaitingValue out, resolved = False \<rparr>"
| "task_after r lc (AsyncGenerator vs out) =
     \<lparr> res = r, lastCall = lc, phase = AwaitingNext vs out, resolved = False \<rparr>"
| "task_after r lc (Generator vs (Inl e)) =
     \<lparr> res = r, lastCall = lc, phase = Rejected e, resolved = False \<rparr>"
| "task_after r lc (Generator vs (Inr v)) =
     \<lparr> res = r, lastCall = lc, phase = Returned, resolved = True \<rparr>"
| "task_after r lc (Plain v) = \<lparr> res = r, lastCall = lc, phase = Returned, resolved = True \<rparr>"

text \<open>What \<open>streamToolSegment\<close> does on the sink of the tool and on the tasks.\<close>

definition dispatched :: "config \<Rightarrow> toolCall \<Rightarrow> nat \<Rightarrow> effect list" where
  "dispatched cfg v tid =
     (case tools cfg (toolName v) of
        None \<Rightarrow> [ToolUiDone tid ToolNotFound]
      | Some tool \<Rightarrow> (case generate tool of None \<Rightarrow> [] | Some f \<Rightarrow> rendered_now tid True (f (args v))))"

definition scheduled :: "config \<Rightarrow> toolCall \<Rightarrow> nat \<Rightarrow> task list" where
  "scheduled cfg v tid =
     (case tools cfg (toolName v) of
        None \<Rightarrow> []
      | Some tool \<Rightarrow> (case generate tool of None \<Rightarrow> [] | Some f \<Rightarrow> [task_after tid True (f (args v))]))"

section \<open>Invariants of a run and auxiliary notions\<close>

text \<open>
  The segments that have been closed when the loop has read the parts \<open>es\<close>: every
  segment but the latest, and the latest too once a \<open>finish\<close> part has been read.
\<close>

definition closed_segments :: "event list \<Rightarrow> segment list \<Rightarrow> segment list" where
  "closed_segments es segs = (if Finish \<in> set es then segs else butlast segs)"

text \<open>While the loop reads and no \<open>finish\<close> part has come, all segments but the latest are closed.\<close>

definition open_inv :: "config \<Rightarrow> state \<Rightarrow> bool" where
  "open_inv cfg s = (closings (trace s) = concat (map (closing cfg) (butlast (segments s))))"

text \<open>The streamable values of the text segments, in order.\<close>

fun streams :: "segment list \<Rightarrow> nat list" where
  "streams [] = []"
| "streams (TextSegment t sid # segs) = sid # streams segs"
| "streams (ToolCallSegment c # segs) = streams segs"

definition streams_inv :: "state \<Rightarrow> bool" where
  "streams_inv s =
     (distinct (streams (segments s)) \<and> (\<forall>sid \<in> set (streams (segments s)). sid < streamables s))"




definition flagWrites :: "effect list \<Rightarrow> nat" where
  "flagWrites tr = length (filter (\<lambda>e. e = SetInitialRemoved) tr)"

text \<open>Calls that neither place a component nor write the flag.\<close>

definition offstage :: "effect list \<Rightarrow> bool" where
  "offstage ext = (\<forall>e \<in> set ext. \<not> is_placement e \<and> e \<noteq> SetInitialRemoved)"


text \<open>
  What holds of the render tasks in every run: \<open>finished\<close> chains all of them, every
  task was started with \<open>lastCall\<close>, a resolved task has returned, and the async function
  has returned only if all of them are resolved.
\<close>

definition task_inv :: "state \<Rightarrow> bool" where
  "task_inv s =
     (finished s = chain (length (tasks s)) \<and>
      (\<forall>t \<in> set (tasks s). lastCall t \<and> (resolved t \<longrightarrow> phase t = Returned)) \<and>
      (status s = Completed \<longrightarrow> (\<forall>t \<in> set (tasks s). resolved t)))"

text \<open>A render task after one of its awaited promises has settled.\<close>

definition advanced :: "task \<Rightarrow> task" where
  "advanced t =
     (case phase t of
        AwaitingValue (Inl e) \<Rightarrow> t\<lparr> phase := Rejected e \<rparr>
      | AwaitingValue (Inr v) \<Rightarrow> t\<lparr> phase := Returned, resolved := True \<rparr>
      | AwaitingNext (v # vs) out \<Rightarrow> t\<lparr> phase := AwaitingNext vs out \<rparr>
      | AwaitingNext [] (Inl e) \<Rightarrow> t\<lparr> phase := Rejected e \<rparr>
      | AwaitingNext [] (Inr v) \<Rightarrow> t\<lparr> phase := Returned, resolved := True \<rparr>
      | _ \<Rightarrow> t)"

text \<open>The causes handed to \<open>ui.error\<close>, and the causes of the \<open>error\<close> parts among some parts.\<close>

fun uiErrors :: "effect list \<Rightarrow> err list" where
  "uiErrors [] = []"
| "uiErrors (UiError e # tr) = e # uiErrors tr"
| "uiErrors (x # tr) = uiErrors tr"



section \<open>Configurations of the scenarios\<close>

text \<open>No tools, an observer, the placeholder as the initial display.\<close>

definition observed :: config where
  "observed = \<lparr> tools = Map.empty, onSegment = True, initial = Placeholder \<rparr>"

text \<open>The tool call of scenario B; no tool of that name is configured in \<open>observed\<close>.\<close>

definition lookup :: toolCall where
  "lookup = ToolCallValue ''1'' ''lookup'' ''{q: x}''"

text \<open>
  Every tool name has a renderer: an async generator that yields one node and returns
  another.
\<close>

definition twoStep :: config where
  "twoStep = \<lparr> tools = (\<lambda>n. Some (Tool (Some (\<lambda>a. AsyncGenerator [Rendered ''loading''] (Inr (Rendered a)))))),
               onSegment = True, initial = Placeholder \<rparr>"

text \<open>Two more tool calls.\<close>

definition fetch :: toolCall where
  "fetch = ToolCallValue ''2'' ''fetch'' ''{id: 7}''"



section \<open>The closures, field by field\<close>

lemma emit_fields [simp]:
  "segments (emit e s) = segments s" "initialRemoved (emit e s) = initialRemoved s"
  "finished (emit e s) = finished s" "content (emit e s) = content s"
  "tasks (emit e s) = tasks s" "streamables (emit e s) = streamables s"
  "toolUis (emit e s) = toolUis s" "status (emit e s) = status s"
  "trace (emit e s) = trace s @ [e]"
  by (simp_all add: emit_def)

lemma latestSegment_emit [simp]: "latestSegment (emit e s) = latestSegment s"
  by (simp add: latestSegment_def)

lemma appendUI_fields [simp]:
  "segments (appendUI c s) = segments s" "initialRemoved (appendUI c s) = True"
  "finished (appendUI c s) = finished s" "content (appendUI c s) = content s"
  "tasks (appendUI c s) = tasks s" "streamables (appendUI c s) = streamables s"
  "toolUis (appendUI c s) = toolUis s" "status (appendUI c s) = status s"
  "trace (appendUI c s) =
     trace s @ (if initialRemoved s then [UiAppend c] else [SetInitialRemoved, UiUpdate c])"
  by (simp_all add: appendUI_def)

lemma markLastSegmentDone_fields [simp]:
  "segments (markLastSegmentDone cfg s) = segments s"
  "initialRemoved (markLastSegmentDone cfg s) = initialRemoved s"
  "finished (markLastSegmentDone cfg s) = finished s"
  "content (markLastSegmentDone cfg s) = content s"
  "tasks (markLastSegmentDone cfg s) = tasks s"
  "streamables (markLastSegmentDone cfg s) = streamables s"
  "toolUis (markLastSegmentDone cfg s) = toolUis s"
  "status (markLastSegmentDone cfg s) = status s"
  "trace (markLastSegmentDone cfg s) =
     trace s @ (if segments s = [] then [] else closing cfg (last (segments s)))"
  by (simp_all add: markLastSegmentDone_def latestSegment_def closing_def Let_def
      split: segment.splits)

lemma addSegment_fields [simp]:
  "segments (addSegment cfg seg s) = segments s @ [seg]"
  "initialRemoved (addSegment cfg seg s) = initialRemoved s"
  "finished (addSegment cfg seg s) = finished s"
  "content (addSegment cfg seg s) = content s"
  "tasks (addSegment cfg seg s) = tasks s"
  "streamables (addSegment cfg seg s) = streamables s"
  "toolUis (addSegment cfg seg s) = toolUis s"
  "status (addSegment cfg seg s) = status s"
  "trace (addSegment cfg seg s) =
     trace s @ (if segments s = [] then [] else closing cfg (last (segments s)))"
  by (simp_all add: addSegment_def Let_def)

lemma updates_eq: "updates r vs s = s\<lparr> trace := trace s @ map (ToolUiUpdate r) vs \<rparr>"
  by (induction vs arbitrary: s) (simp_all add: emit_def)

lemma updates_fields [simp]:
  "segments (updates r vs s) = segments s" "initialRemoved (updates r vs s) = initialRemoved s"
  "finished (updates r vs s) = finished s" "content (updates r vs s) = content s"
  "tasks (updates r vs s) = tasks s" "streamables (updates r vs s) = streamables s"
  "toolUis (updates r vs s) = toolUis s" "status (updates r vs s) = status s"
  "trace (updates r vs s) = trace s @ map (ToolUiUpdate r) vs"
  by (simp_all add: updates_eq)

lemma deliver_fields [simp]:
  "segments (deliver r b v s) = segments s" "initialRemoved (deliver r b v s) = initialRemoved s"
  "finished (deliver r b v s) = finished s" "content (deliver r b v s) = content s"
  "tasks (deliver r b v s) = tasks s" "streamables (deliver r b v s) = streamables s"
  "toolUis (deliver r b v s) = toolUis s" "status (deliver r b v s) = status s"
  "trace (deliver r b v s) = trace s @ [if b then ToolUiDone r v else ToolUiUpdate r v]"
  by (simp_all add: deliver_def)

lemma setTask_fields [simp]:
  "segments (setTask k f s) = segments s" "initialRemoved (setTask k f s) = initialRemoved s"
  "finished (setTask k f s) = finished s" "content (setTask k f s) = content s"
  "tasks (setTask k f s) = (tasks s)[k := f (tasks s ! k)]"
  "streamables (setTask k f s) = streamables s"
  "toolUis (setTask k f s) = toolUis s" "status (setTask k f s) = status s"
  "trace (setTask k f s) = trace s"
  by (simp_all add: setTask_def)

lemma handleRender_None [simp]: "handleRender a None r lc s = s"
  by (simp add: handleRender_def)

lemma handleRender_fields [simp]:
  "segments (handleRender a (Some f) r lc s) = segments s"
  "initialRemoved (handleRender a (Some f) r lc s) = initialRemoved s"
  "finished (handleRender a (Some f) r lc s) =
     Some (case finished s of Some p \<Rightarrow> Then p (length (tasks s)) | None \<Rightarrow> Resolvable (length (tasks s)))"
  "content (handleRender a (Some f) r lc s) = content s"
  "streamables (handleRender a (Some f) r lc s) = streamables s"
  "toolUis (handleRender a (Some f) r lc s) = toolUis s"
  "status (handleRender a (Some f) r lc s) = status s"
  by (simp_all add: handleRender_def Let_def resolve_def reject_def
      split: rendering.splits sum.splits option.splits)

lemma handleRender_frame [simp]:
  "segments (handleRender a ren r lc s) = segments s"
  "initialRemoved (handleRender a ren r lc s) = initialRemoved s"
  "content (handleRender a ren r lc s) = content s"
  "streamables (handleRender a ren r lc s) = streamables s"
  "toolUis (handleRender a ren r lc s) = toolUis s"
  "status (handleRender a ren r lc s) = status s"
  by (cases ren; simp)+

lemma handleRender_tasks [simp]:
  "tasks (handleRender a (Some f) r lc s) = tasks s @ [task_after r lc (f a)]"
  by (cases "f a")
     (simp_all add: handleRender_def Let_def resolve_def reject_def split: sum.splits)

lemma handleRender_trace [simp]:
  "trace (handleRender a (Some f) r lc s) = trace s @ rendered_now r lc (f a)"
  by (cases "f a")
     (simp_all add: handleRender_def Let_def resolve_def reject_def split: sum.splits)

lemma streamTextSegment_extend:
  assumes "segments s \<noteq> []" "last (segments s) = TextSegment t sid"
  shows "streamTextSegment cfg d s =
           emit (StreamAppend sid d)
             (s\<lparr> segments := butlast (segments s) @ [TextSegment (t @ d) sid] \<rparr>)"
  using assms by (simp add: streamTextSegment_def latestSegment_def)

lemma streamTextSegment_open:
  assumes "segments s = [] \<or> \<not> is_text (last (segments s))"
  shows "streamTextSegment cfg d s =
           addSegment cfg (TextSegment d (streamables s))
             (appendUI (TextComponent (streamables s))
               (emit (CreateStreamableValue (streamables s) d)
                 (s\<lparr> streamables := streamables s + 1 \<rparr>)))"
  using assms
  by (auto simp add: streamTextSegment_def latestSegment_def Let_def split: segment.splits)

lemma is_text_conv: "is_text seg = (\<exists>t sid. seg = TextSegment t sid)"
  by (cases seg) simp_all

lemma streamTextSegment_open_fields:
  assumes "segments s = [] \<or> \<not> is_text (last (segments s))"
  shows "segments (streamTextSegment cfg d s) = segments s @ [TextSegment d (streamables s)]"
    and "initialRemoved (streamTextSegment cfg d s) = True"
    and "streamables (streamTextSegment cfg d s) = Suc (streamables s)"
    and "trace (streamTextSegment cfg d s) =
           trace s @ CreateStreamableValue (streamables s) d #
             placing s (TextComponent (streamables s)) @ closing_last cfg s"
  by (simp_all add: streamTextSegment_open[OF assms] placing_def closing_last_def)

lemma streamTextSegment_extend_fields:
  assumes "segments s \<noteq> []" "last (segments s) = TextSegment t sid"
  shows "segments (streamTextSegment cfg d s) = butlast (segments s) @ [TextSegment (t @ d) sid]"
    and "initialRemoved (streamTextSegment cfg d s) = initialRemoved s"
    and "streamables (streamTextSegment cfg d s) = streamables s"
    and "trace (streamTextSegment cfg d s) = trace s @ [StreamAppend sid d]"
  by (simp_all add: streamTextSegment_extend[OF assms])

lemma streamTextSegment_fields [simp]:
  "finished (streamTextSegment cfg d s) = finished s"
  "content (streamTextSegment cfg d s) = content s"
  "tasks (streamTextSegment cfg d s) = tasks s"
  "toolUis (streamTextSegment cfg d s) = toolUis s"
  "status (streamTextSegment cfg d s) = status s"
  by (simp_all add: streamTextSegment_def Let_def split: option.splits segment.splits)

lemma streamToolSegment_fields [simp]:
  "segments (streamToolSegment cfg v s) = segments s @ [ToolCallSegment v]"
  "initialRemoved (streamToolSegment cfg v s) = True"
  "content (streamToolSegment cfg v s) = content s"
  "streamables (streamToolSegment cfg v s) = streamables s"
  "toolUis (streamToolSegment cfg v s) = Suc (toolUis s)"
  "status (streamToolSegment cfg v s) = status s"
  "tasks (streamToolSegment cfg v s) = tasks s @ scheduled cfg v (toolUis s)"
  "trace (streamToolSegment cfg v s) =
     trace s @ CreateStreamableUI (toolUis s) # placing s (ToolWrapper (toolUis s)) @
       dispatched cfg v (toolUis s) @ closing_last cfg s"
  by (simp_all add: streamToolSegment_def Let_def placing_def closing_last_def
      dispatched_def scheduled_def split: option.splits)

lemma streamToolSegment_finished:
  "finished (streamToolSegment cfg v s) =
     (if scheduled cfg v (toolUis s) = [] then finished s
      else Some (case finished s of Some p \<Rightarrow> Then p (length (tasks s))
                 | None \<Rightarrow> Resolvable (length (tasks s))))"
  by (simp add: streamToolSegment_def Let_def scheduled_def split: option.splits)

lemma settle_fields [simp]:
  "segments (settle k s) = segments s" "initialRemoved (settle k s) = initialRemoved s"
  "finished (settle k s) = finished s" "content (settle k s) = content s"
  "streamables (settle k s) = streamables s" "toolUis (settle k s) = toolUis s"
  "status (settle k s) = status s" "length (tasks (settle k s)) = length (tasks s)"
  by (simp_all add: settle_def Let_def resolve_def reject_def
      split: phase.splits sum.splits list.splits)

lemma settle_trace:
  "trace (settle k s) = trace s \<or>
   (\<exists>r v. trace (settle k s) = trace s @ [ToolUiUpdate r v]) \<or>
   (\<exists>r v. trace (settle k s) = trace s @ [ToolUiDone r v])"
  by (simp add: settle_def Let_def resolve_def reject_def
      split: phase.splits sum.splits list.splits)

lemma onDone_fields [simp]:
  "segments (onDone s) = segments s" "initialRemoved (onDone s) = initialRemoved s"
  "finished (onDone s) = finished s" "content (onDone s) = content s"
  "tasks (onDone s) = tasks s"
  "streamables (onDone s) = streamables s" "toolUis (onDone s) = toolUis s"
  "status (onDone s) = (if finished s = None then Completed else AwaitingFinished)"
  "trace (onDone s) = trace s @ [UiDone]"
  by (simp_all add: onDone_def Let_def split: option.splits)

section \<open>Projections of the trace\<close>

lemma shown_append [simp]: "shown (xs @ ys) = shown xs @ shown ys"
  by (induction xs rule: shown.induct) simp_all

lemma notified_append [simp]: "notified (xs @ ys) = notified xs @ notified ys"
  by (induction xs rule: notified.induct) simp_all

lemma placements_append [simp]: "placements (xs @ ys) = placements xs @ placements ys"
  by (simp add: placements_def)

lemma closings_append [simp]: "closings (xs @ ys) = closings xs @ closings ys"
  by (simp add: closings_def)

lemma loopCalls_append [simp]: "loopCalls (xs @ ys) = loopCalls xs @ loopCalls ys"
  by (simp add: loopCalls_def)

lemma render_calls_invisible:
  assumes "\<forall>e \<in> set xs. is_render_call e"
  shows "shown xs = []" "notified xs = []" "placements xs = []" "closings xs = []"
    "loopCalls xs = []"
proof -
  have sub: "\<And>e. is_render_call e \<Longrightarrow> \<not> is_placement e \<and> \<not> is_closing e"
    by (case_tac e) simp_all
  show "shown xs = []" using assms by (induction xs rule: shown.induct) simp_all
  show "notified xs = []" using assms by (induction xs rule: notified.induct) simp_all
  show "placements xs = []" using assms sub by (auto simp: placements_def filter_empty_conv)
  show "closings xs = []" using assms sub by (auto simp: closings_def filter_empty_conv)
  show "loopCalls xs = []" using assms by (auto simp: loopCalls_def filter_empty_conv)
qed

lemma settle_calls:
  "\<exists>ext. trace (settle k s) = trace s @ ext \<and> (\<forall>e \<in> set ext. is_render_call e)"
  using settle_trace[of k s]
proof (elim disjE exE)
  assume "trace (settle k s) = trace s"
  then show ?thesis by simp
next
  fix r v assume "trace (settle k s) = trace s @ [ToolUiUpdate r v]"
  then show ?thesis by simp
next
  fix r v assume "trace (settle k s) = trace s @ [ToolUiDone r v]"
  then show ?thesis by simp
qed

lemma settle_invisible [simp]:
  "shown (trace (settle k s)) = shown (trace s)"
  "notified (trace (settle k s)) = notified (trace s)"
  "placements (trace (settle k s)) = placements (trace s)"
  "closings (trace (settle k s)) = closings (trace s)"
  "loopCalls (trace (settle k s)) = loopCalls (trace s)"
  using settle_calls[of k s] by (auto simp: render_calls_invisible)

section \<open>Once the loop has stopped reading\<close>

lemma step_fields_halted:
  assumes "status s \<noteq> Reading"
  shows "segments (step cfg a s) = segments s"
    and "loopCalls (trace (step cfg a s)) = loopCalls (trace s)"
    and "closings (trace (step cfg a s)) = closings (trace s)"
    and "status (step cfg a s) \<noteq> Reading"
    and "status s = Failed \<Longrightarrow> status (step cfg a s) = Failed"
  using assms by (cases a; simp add: step_def split: option.splits)+

lemma exec_halted:
  assumes "status s \<noteq> Reading"
  shows "segments (exec cfg acts s) = segments s \<and>
         loopCalls (trace (exec cfg acts s)) = loopCalls (trace s) \<and>
         closings (trace (exec cfg acts s)) = closings (trace s) \<and>
         status (exec cfg acts s) \<noteq> Reading \<and>
         (status s = Failed \<longrightarrow> status (exec cfg acts s) = Failed)"
  using assms
proof (induction acts arbitrary: s)
  case Nil
  then show ?case by simp
next
  case (Cons a acts)
  from step_fields_halted[OF Cons.prems, of cfg a] Cons.IH[of "step cfg a s"]
  show ?case by simp
qed

section \<open>Closing calls\<close>

lemma closings_simps [simp]:
  "closings [] = []"
  "closings (e # tr) = (if is_closing e then e # closings tr else closings tr)"
  by (simp_all add: closings_def)

lemma closings_closing [simp]: "closings (closing cfg seg) = closing cfg seg"
  by (cases seg) (simp_all add: closing_def)

lemma closings_placing [simp]: "closings (placing s c) = []"
  by (simp add: placing_def)

lemma rendered_now_render_calls: "\<forall>e \<in> set (rendered_now r lc x). is_render_call e"
  by (induction r lc x rule: rendered_now.induct) auto

lemma dispatched_render_calls: "\<forall>e \<in> set (dispatched cfg v tid). is_render_call e"
  using rendered_now_render_calls by (auto simp: dispatched_def split: option.splits)

lemma closings_dispatched [simp]: "closings (dispatched cfg v tid) = []"
  by (rule render_calls_invisible(4)[OF dispatched_render_calls])

lemma closings_closing_last:
  "closings (closing_last cfg s) = closing_last cfg s"
  by (simp add: closing_last_def)

lemma closing_observed: "onSegment cfg \<Longrightarrow> closing cfg seg = sealed_then_notified seg"
  by (cases seg) (simp_all add: closing_def)

lemma concat_closing_snoc:
  "segs \<noteq> [] \<Longrightarrow>
   concat (map (closing cfg) (butlast segs)) @ closing cfg (last segs) =
   concat (map (closing cfg) segs)"
proof -
  assume "segs \<noteq> []"
  then have "segs = butlast segs @ [last segs]" by simp
  then have "concat (map (closing cfg) segs) =
             concat (map (closing cfg) (butlast segs @ [last segs]))" by simp
  then show ?thesis by simp
qed

lemma open_inv_adds:
  assumes "open_inv cfg s"
  shows "closings (trace s) @ closing_last cfg s = concat (map (closing cfg) (segments s))"
  using assms concat_closing_snoc[of "segments s" cfg]
  by (cases "segments s = []") (simp_all add: open_inv_def closing_last_def)

lemma streamTextSegment_open_inv:
  assumes "open_inv cfg s"
  shows "open_inv cfg (streamTextSegment cfg d s)"
proof (cases "segments s \<noteq> [] \<and> is_text (last (segments s))")
  case True
  then obtain t sid where l: "last (segments s) = TextSegment t sid"
    by (auto simp: is_text_conv)
  from True l assms show ?thesis
    by (simp add: open_inv_def streamTextSegment_extend_fields)
next
  case False
  then have c: "segments s = [] \<or> \<not> is_text (last (segments s))" by blast
  have "closings (trace (streamTextSegment cfg d s)) =
        closings (trace s) @ closings (closing_last cfg s)"
    by (simp add: streamTextSegment_open_fields[OF c])
  with open_inv_adds[OF assms] show ?thesis
    by (simp add: open_inv_def streamTextSegment_open_fields[OF c] closings_closing_last)
qed

lemma streamToolSegment_open_inv:
  assumes "open_inv cfg s"
  shows "open_inv cfg (streamToolSegment cfg v s)"
proof -
  have "closings (trace (streamToolSegment cfg v s)) =
        closings (trace s) @ closings (closing_last cfg s)"
    by simp
  with open_inv_adds[OF assms] show ?thesis
    by (simp add: open_inv_def closings_closing_last)
qed

lemma onPart_open_inv:
  assumes "open_inv cfg s" "ev \<noteq> Finish"
  shows "open_inv cfg (onPart cfg ev s)"
proof (cases ev)
  case (TextDelta d)
  from streamTextSegment_open_inv[OF assms(1), of d] show ?thesis
    by (simp add: onPart_def TextDelta open_inv_def)
next
  case (ToolCall v)
  from streamToolSegment_open_inv[OF assms(1), of v] show ?thesis
    by (simp add: onPart_def ToolCall)
next
  case (ErrorEvent e)
  with assms show ?thesis by (simp add: onPart_def open_inv_def)
qed (use assms in \<open>simp_all add: onPart_def\<close>)

lemma onPart_status:
  "status (onPart cfg ev s) = (case ev of ErrorEvent e \<Rightarrow> Failed | _ \<Rightarrow> status s)"
  by (cases ev) (simp_all add: onPart_def)

lemma finish_closes:
  assumes "open_inv cfg s"
  shows "closings (trace (markLastSegmentDone cfg s)) = concat (map (closing cfg) (segments s))"
  using open_inv_adds[OF assms] by (simp add: closing_last_def closings_closing_last[unfolded closing_last_def])

lemma step_quiet:
  assumes "a = Settle k \<or> a = Wake"
  shows "segments (step cfg a s) = segments s"
    and "closings (trace (step cfg a s)) = closings (trace s)"
    and "status (step cfg a s) = Reading \<longleftrightarrow> status s = Reading"
  using assms by (auto simp: step_def split: option.splits)

lemma exec_nothing_consumed:
  assumes "status s = Reading \<longrightarrow> consumed acts = []"
  shows "segments (exec cfg acts s) = segments s \<and>
         closings (trace (exec cfg acts s)) = closings (trace s)"
  using assms
proof (induction acts arbitrary: s)
  case Nil
  then show ?case by simp
next
  case (Cons a acts)
  show ?case
  proof (cases "status s = Reading")
    case False
    with exec_halted[of s cfg "a # acts"] show ?thesis by simp
  next
    case True
    with Cons.prems have c: "consumed (a # acts) = []" by simp
    show ?thesis
    proof (cases a)
      case (Next ev)
      with c show ?thesis by (cases ev) simp_all
    next
      case End
      have "status (step cfg End s) \<noteq> Reading" using True by (simp add: step_def)
      from exec_halted[OF this, of cfg acts] True End show ?thesis
        by (simp add: step_def)
    next
      case (Settle k)
      with c have "consumed acts = []" by simp
      with Cons.IH[of "step cfg a s"] step_quiet[of a k cfg s] Settle show ?thesis by simp
    next
      case Wake
      with c have "consumed acts = []" by simp
      with Cons.IH[of "step cfg a s"] step_quiet[of a _ cfg s] Wake show ?thesis by simp
    qed
  qed
qed

lemma closings_exec:
  assumes "open_inv cfg s" "status s = Reading" "Finish \<notin> set (butlast (consumed acts))"
  shows "closings (trace (exec cfg acts s)) =
         concat (map (closing cfg) (closed_segments (consumed acts) (segments (exec cfg acts s))))"
  using assms
proof (induction acts arbitrary: s)
  case Nil
  then show ?case by (simp add: open_inv_def closed_segments_def)
next
  case (Cons a acts)
  let ?s1 = "step cfg a s"
  show ?case
  proof (cases a)
    case (Next ev)
    show ?thesis
    proof (cases "ev = Finish \<or> (\<exists>e. ev = ErrorEvent e)")
      case True
      then show ?thesis
      proof
        assume f: "ev = Finish"
        with Cons.prems(3) Next have none: "consumed acts = []"
          by (cases "consumed acts") (simp_all split: if_splits)
        have s1: "?s1 = markLastSegmentDone cfg s"
          using Cons.prems(2) Next f by (simp add: step_def onPart_def)
        from exec_nothing_consumed[of ?s1 acts cfg] none
        have "segments (exec cfg acts ?s1) = segments s"
          "closings (trace (exec cfg acts ?s1)) = closings (trace ?s1)"
          by (simp_all add: s1)
        with finish_closes[OF Cons.prems(1)] show ?thesis
          by (simp add: Next f closed_segments_def s1[symmetric])
      next
        assume "\<exists>e. ev = ErrorEvent e"
        then obtain e where e: "ev = ErrorEvent e" ..
        have st: "status ?s1 \<noteq> Reading" and sg: "segments ?s1 = segments s"
          and cl: "closings (trace ?s1) = closings (trace s)"
          using Cons.prems(2) Next e by (simp_all add: step_def onPart_def)
        from exec_halted[OF st, of cfg acts] sg cl Cons.prems(1) show ?thesis
          by (simp add: Next e closed_segments_def open_inv_def)
      qed
    next
      case False
      then have nf: "ev \<noteq> Finish" and ne: "\<And>e. ev \<noteq> ErrorEvent e" by auto
      have cons: "consumed (a # acts) = ev # consumed acts"
        using Next nf ne by (cases ev) auto
      have s1: "?s1 = onPart cfg ev s" using Cons.prems(2) Next by (simp add: step_def)
      have inv: "open_inv cfg ?s1" unfolding s1 by (rule onPart_open_inv[OF Cons.prems(1) nf])
      have st: "status ?s1 = Reading"
        using ne Cons.prems(2) by (cases ev) (auto simp: s1 onPart_status)
      have "Finish \<notin> set (butlast (consumed acts))"
        using Cons.prems(3) cons by (simp split: if_splits)
      from Cons.IH[OF inv st this] nf show ?thesis
        by (simp add: cons closed_segments_def)
    qed
  next
    case End
    have st: "status ?s1 \<noteq> Reading" and sg: "segments ?s1 = segments s"
      and cl: "closings (trace ?s1) = closings (trace s)"
      using Cons.prems(2) End by (simp_all add: step_def)
    from exec_halted[OF st, of cfg acts] sg cl Cons.prems(1) show ?thesis
      by (simp add: End closed_segments_def open_inv_def)
  next
    case (Settle k)
    from step_quiet[of a k cfg s] Settle Cons.prems
    have "open_inv cfg ?s1" "status ?s1 = Reading" by (simp_all add: open_inv_def)
    from Cons.IH[OF this] Cons.prems(3) Settle show ?thesis by simp
  next
    case Wake
    from step_quiet[of a _ cfg s] Wake Cons.prems
    have "open_inv cfg ?s1" "status ?s1 = Reading" by (simp_all add: open_inv_def)
    from Cons.IH[OF this] Cons.prems(3) Wake show ?thesis by simp
  qed
qed

lemma open_inv_init: "open_inv cfg init"
  by (simp add: open_inv_def init_def)

lemma notified_closings: "notified (closings tr) = notified tr"
  by (induction tr rule: notified.induct) simp_all

lemma notified_sealed: "notified (concat (map sealed_then_notified segs)) = segs"
proof (induction segs)
  case Nil
  then show ?case by simp
next
  case (Cons seg segs)
  then show ?case by (cases seg) simp_all
qed

section \<open>Runs: invariants, growth of the trace, stream references\<close>

lemma exec_invariant:
  assumes "P s" and "\<And>s a. P s \<Longrightarrow> P (step cfg a s)"
  shows "P (exec cfg acts s)"
  using assms(1) by (induction acts arbitrary: s) (simp_all add: assms(2))

lemma exec_append: "exec cfg (as @ bs) s = exec cfg bs (exec cfg as s)"
  by (induction as arbitrary: s) simp_all

lemma streams_append [simp]: "streams (xs @ ys) = streams xs @ streams ys"
  by (induction xs rule: streams.induct) simp_all

lemma streams_extend:
  assumes "segs \<noteq> []" "last segs = TextSegment t sid"
  shows "streams (butlast segs @ [TextSegment t' sid]) = streams segs"
proof -
  from assms have "segs = butlast segs @ [TextSegment t sid]"
    by (metis append_butlast_last_id)
  then have "streams segs = streams (butlast segs @ [TextSegment t sid])" by simp
  then show ?thesis by simp
qed

lemma streamTextSegment_streams_inv:
  assumes "streams_inv s"
  shows "streams_inv (streamTextSegment cfg d s)"
proof (cases "segments s \<noteq> [] \<and> is_text (last (segments s))")
  case True
  then obtain t sid where l: "last (segments s) = TextSegment t sid"
    by (auto simp: is_text_conv)
  from True l assms streams_extend[of "segments s" t sid] show ?thesis
    by (simp add: streams_inv_def streamTextSegment_extend_fields)
next
  case False
  then have c: "segments s = [] \<or> \<not> is_text (last (segments s))" by blast
  from assms show ?thesis
    by (auto simp: streams_inv_def streamTextSegment_open_fields[OF c])
qed

lemma step_streams_inv:
  assumes "streams_inv s"
  shows "streams_inv (step cfg a s)"
proof (cases a)
  case (Next ev)
  show ?thesis
  proof (cases "status s = Reading")
    case True
    show ?thesis
    proof (cases ev)
      case (TextDelta d)
      from streamTextSegment_streams_inv[OF assms, of cfg d] show ?thesis
        by (simp add: Next TextDelta step_def onPart_def True streams_inv_def)
    qed (use assms True Next in \<open>simp_all add: step_def onPart_def streams_inv_def\<close>)
  qed (use assms Next in \<open>simp add: step_def\<close>)
qed (use assms in \<open>simp_all add: step_def streams_inv_def split: option.splits\<close>)

lemma streams_inv_exec: "streams_inv (exec cfg acts init)"
  by (rule exec_invariant) (simp_all add: streams_inv_def init_def step_streams_inv[unfolded streams_inv_def])

lemma sealed_streams:
  "StreamDone sid \<in> set (concat (map sealed_then_notified segs)) \<Longrightarrow> sid \<in> set (streams segs)"
  by (induction segs rule: streams.induct) auto

lemma closings_mem: "StreamDone sid \<in> set tr \<Longrightarrow> StreamDone sid \<in> set (closings tr)"
  by (simp add: closings_def)

lemma last_stream_fresh:
  assumes "distinct (streams segs)" "segs \<noteq> []" "last segs = TextSegment t sid"
  shows "sid \<notin> set (streams (butlast segs))"
proof -
  from assms have "segs = butlast segs @ [TextSegment t sid]"
    by (metis append_butlast_last_id)
  then have "streams segs = streams (butlast segs) @ [sid]"
    by (metis streams_append streams.simps(1,2))
  with assms(1) show ?thesis by simp
qed

lemma step_trace_grows: "\<exists>ext. trace (step cfg a s) = trace s @ ext"
proof (cases a)
  case (Next ev)
  show ?thesis
  proof (cases ev)
    case (TextDelta d)
    show ?thesis
    proof (cases "segments s \<noteq> [] \<and> is_text (last (segments s))")
      case True
      then obtain t sid where l: "last (segments s) = TextSegment t sid"
        by (auto simp: is_text_conv)
      from True l show ?thesis
        by (simp add: Next TextDelta step_def onPart_def streamTextSegment_extend_fields)
    next
      case False
      then have c: "segments s = [] \<or> \<not> is_text (last (segments s))" by blast
      show ?thesis
        by (simp add: Next TextDelta step_def onPart_def streamTextSegment_open_fields[OF c])
    qed
  qed (simp_all add: Next step_def onPart_def)
next
  case (Settle k)
  with settle_calls[of k s] show ?thesis by (auto simp: step_def)
qed (simp_all add: step_def split: option.splits)

lemma exec_trace_grows: "\<exists>ext. trace (exec cfg acts s) = trace s @ ext"
proof (induction acts arbitrary: s)
  case Nil
  then show ?case by simp
next
  case (Cons a acts)
  from step_trace_grows[of cfg a s] obtain e1 where "trace (step cfg a s) = trace s @ e1" ..
  moreover from Cons[of "step cfg a s"] obtain e2 where
    "trace (exec cfg acts (step cfg a s)) = trace (step cfg a s) @ e2" ..
  ultimately show ?case by simp
qed

lemma end_seals:
  assumes "status s = Reading" "End \<in> set acts" "\<forall>e. ErrorEvent e \<notin> set (consumed acts)"
  shows "UiDone \<in> set (trace (exec cfg acts s))"
  using assms
proof (induction acts arbitrary: s)
  case Nil
  then show ?case by simp
next
  case (Cons a acts)
  let ?s1 = "step cfg a s"
  show ?case
  proof (cases a)
    case (Next ev)
    from Cons.prems(3) Next have ne: "\<And>e. ev \<noteq> ErrorEvent e" by auto
    then have cons: "consumed (a # acts) = ev # consumed acts" using Next by (cases ev) auto
    have "status ?s1 = Reading"
      using ne Cons.prems(1) Next by (cases ev) (auto simp: step_def onPart_status)
    moreover have "End \<in> set acts" using Cons.prems(2) Next by simp
    moreover have "\<forall>e. ErrorEvent e \<notin> set (consumed acts)" using Cons.prems(3) cons by simp
    ultimately show ?thesis using Cons.IH[of ?s1] by simp
  next
    case End
    have "UiDone \<in> set (trace ?s1)" using Cons.prems(1) End by (simp add: step_def)
    moreover from exec_trace_grows[of cfg acts ?s1] obtain ext where
      "trace (exec cfg acts ?s1) = trace ?s1 @ ext" ..
    ultimately show ?thesis by simp
  next
    case (Settle k)
    with Cons.prems step_quiet[of a k cfg s] Cons.IH[of ?s1] show ?thesis by simp
  next
    case Wake
    with Cons.prems step_quiet[of a _ cfg s] Cons.IH[of ?s1] show ?thesis by simp
  qed
qed

section \<open>Accumulated text\<close>





section \<open>Placement of components\<close>

lemma flagWrites_simps [simp]:
  "flagWrites [] = 0"
  "flagWrites (e # tr) = (if e = SetInitialRemoved then 1 else 0) + flagWrites tr"
  "flagWrites (xs @ ys) = flagWrites xs + flagWrites ys"
  by (simp_all add: flagWrites_def)

lemma placements_simps [simp]:
  "placements [] = []"
  "placements (e # tr) = (if is_placement e then e # placements tr else placements tr)"
  by (simp_all add: placements_def)

lemma offstage_simps [simp]:
  "offstage [] = True"
  "offstage (e # ext) = (\<not> is_placement e \<and> e \<noteq> SetInitialRemoved \<and> offstage ext)"
  by (auto simp: offstage_def)


lemma offstage_append [simp]: "offstage (xs @ ys) = (offstage xs \<and> offstage ys)"
  by (auto simp: offstage_def)


lemma offstage_closing [simp]: "offstage (closing cfg seg)"
  by (cases seg) (simp_all add: closing_def)

lemma offstage_closing_last [simp]: "offstage (closing_last cfg s)"
  by (simp add: closing_last_def)

lemma render_calls_offstage:
  assumes "\<forall>e \<in> set ext. is_render_call e"
  shows "offstage ext"
  unfolding offstage_def
proof
  fix e assume "e \<in> set ext"
  with assms have "is_render_call e" by blast
  then show "\<not> is_placement e \<and> e \<noteq> SetInitialRemoved" by (cases e) simp_all
qed

lemma offstage_dispatched [simp]: "offstage (dispatched cfg v tid)"
  by (rule render_calls_offstage[OF dispatched_render_calls])









section \<open>Render tasks and the chain\<close>

lemma settled_chain:
  "settled ts (the (chain (Suc n))) = (\<forall>i \<le> n. i < length ts \<and> resolved (ts ! i))"
proof (induction n)
  case 0
  then show ?case by simp
next
  case (Suc n)
  have "settled ts (the (chain (Suc (Suc n)))) =
        (settled ts (the (chain (Suc n))) \<and> Suc n < length ts \<and> resolved (ts ! Suc n))"
    by simp
  also have "\<dots> = (\<forall>i \<le> Suc n. i < length ts \<and> resolved (ts ! i))"
    unfolding Suc.IH by (auto simp: le_Suc_eq)
  finally show ?case .
qed

lemma chain_eq_None [simp]: "(chain n = None) = (n = 0)"
  by (cases n) simp_all

lemma task_after_ok:
  "lastCall (task_after r True x)" "resolved (task_after r True x) \<longrightarrow> phase (task_after r True x) = Returned"
  by (induction r True x rule: task_after.induct) simp_all

lemma scheduled_cases:
  "scheduled cfg v tid = [] \<or> (\<exists>x. scheduled cfg v tid = [task_after tid True x])"
  by (auto simp: scheduled_def split: option.splits)

lemma streamToolSegment_task_inv:
  assumes "task_inv s" "status s = Reading"
  shows "task_inv (streamToolSegment cfg v s)"
  using scheduled_cases[of cfg v "toolUis s"]
proof
  assume "scheduled cfg v (toolUis s) = []"
  with assms show ?thesis by (simp add: task_inv_def streamToolSegment_finished)
next
  assume "\<exists>x. scheduled cfg v (toolUis s) = [task_after (toolUis s) True x]"
  then obtain x where x: "scheduled cfg v (toolUis s) = [task_after (toolUis s) True x]" ..
  have "finished (streamToolSegment cfg v s) = chain (Suc (length (tasks s)))"
    using assms(1) by (simp add: streamToolSegment_finished x task_inv_def split: option.splits)
  with assms task_after_ok[of "toolUis s" x] show ?thesis
    by (simp add: task_inv_def x)
qed

lemma settle_tasks:
  "tasks (settle k s) =
     (if k < length (tasks s) then (tasks s)[k := advanced (tasks s ! k)] else tasks s)"
  by (simp add: settle_def advanced_def Let_def resolve_def reject_def
      split: phase.splits sum.splits list.splits)

lemma advanced_ok:
  "lastCall (advanced t) = lastCall t"
  "resolved t \<longrightarrow> phase t = Returned \<Longrightarrow> resolved (advanced t) \<longrightarrow> phase (advanced t) = Returned"
  "phase t = Returned \<Longrightarrow> advanced t = t"
  by (auto simp: advanced_def split: phase.splits sum.splits list.splits)

lemma settle_task_inv:
  assumes "task_inv s"
  shows "task_inv (settle k s)"
proof (cases "k < length (tasks s) \<and> phase (tasks s ! k) \<noteq> Returned")
  case False
  then have "tasks (settle k s) = tasks s"
    by (auto simp: settle_tasks advanced_ok(3))
  with assms show ?thesis by (simp add: task_inv_def)
next
  case True
  then have k: "k < length (tasks s)" and nr: "phase (tasks s ! k) \<noteq> Returned" by simp_all
  let ?t' = "advanced (tasks s ! k)"
  have ts: "tasks (settle k s) = (tasks s)[k := ?t']" using k by (simp add: settle_tasks)
  from k have mem: "tasks s ! k \<in> set (tasks s)" by simp
  with assms nr have unres: "\<not> resolved (tasks s ! k)" by (auto simp: task_inv_def)
  with assms mem have nc: "status s \<noteq> Completed" by (auto simp: task_inv_def)
  from assms mem have ok: "lastCall (tasks s ! k)"
    "resolved (tasks s ! k) \<longrightarrow> phase (tasks s ! k) = Returned"
    by (auto simp: task_inv_def)
  have "\<forall>t \<in> set ((tasks s)[k := ?t']). lastCall t \<and> (resolved t \<longrightarrow> phase t = Returned)"
  proof
    fix t assume "t \<in> set ((tasks s)[k := ?t'])"
    then have "t = ?t' \<or> t \<in> set (tasks s)"
      using set_update_subset_insert[of "tasks s" k ?t'] by auto
    then show "lastCall t \<and> (resolved t \<longrightarrow> phase t = Returned)"
    proof
      assume "t = ?t'"
      with ok advanced_ok(1)[of "tasks s ! k"] advanced_ok(2)[OF ok(2)] show ?thesis by simp
    next
      assume "t \<in> set (tasks s)"
      with assms show ?thesis by (auto simp: task_inv_def)
    qed
  qed
  with assms nc show ?thesis by (simp add: task_inv_def ts)
qed

lemma step_task_inv:
  assumes "task_inv s"
  shows "task_inv (step cfg a s)"
proof (cases a)
  case (Next ev)
  show ?thesis
  proof (cases "status s = Reading")
    case True
    then have s1: "step cfg a s = onPart cfg ev s" by (simp add: Next step_def)
    show ?thesis
    proof (cases ev)
      case (ToolCall v)
      with streamToolSegment_task_inv[OF assms True] show ?thesis by (simp add: s1 onPart_def)
    qed (use assms True in \<open>simp_all add: s1 onPart_def task_inv_def\<close>)
  qed (use assms Next in \<open>simp add: step_def\<close>)
next
  case End
  with assms show ?thesis by (simp add: step_def task_inv_def)
next
  case (Settle k)
  with settle_task_inv[OF assms] show ?thesis by (simp add: step_def)
next
  case Wake
  show ?thesis
  proof (cases "finished s")
    case None
    with assms Wake show ?thesis by (simp add: step_def)
  next
    case (Some p)
    with assms obtain n where n: "length (tasks s) = Suc n" "p = the (chain (Suc n))"
      by (cases "length (tasks s)") (auto simp: task_inv_def)
    have "\<forall>t \<in> set (tasks s). resolved t" if "settled (tasks s) p"
    proof
      fix t assume "t \<in> set (tasks s)"
      then obtain i where i: "i < length (tasks s)" "t = tasks s ! i"
        by (auto simp: in_set_conv_nth)
      from that n(2) have "settled (tasks s) (the (chain (Suc n)))" by simp
      then have "\<forall>i \<le> n. i < length (tasks s) \<and> resolved (tasks s ! i)"
        unfolding settled_chain .
      with i n(1) show "resolved t" by simp
    qed
    then have all: "settled (tasks s) p \<longrightarrow> (\<forall>t \<in> set (tasks s). resolved t)" by blast
    have eq: "step cfg a s =
        (if status s = AwaitingFinished \<and> settled (tasks s) p then s\<lparr> status := Completed \<rparr> else s)"
      by (simp add: Wake step_def Some)
    show ?thesis
    proof (cases "status s = AwaitingFinished \<and> settled (tasks s) p")
      case True
      with all assms show ?thesis unfolding eq by (simp add: task_inv_def)
    next
      case False
      with assms show ?thesis unfolding eq by auto
    qed
  qed
qed

lemma task_inv_exec: "task_inv (exec cfg acts init)"
  by (rule exec_invariant) (simp_all add: step_task_inv, simp add: task_inv_def init_def)

section \<open>Errors on the display sink\<close>

lemma uiErrors_append [simp]: "uiErrors (xs @ ys) = uiErrors xs @ uiErrors ys"
  by (induction xs rule: uiErrors.induct) simp_all


lemma uiErrors_render_calls: "\<forall>e \<in> set ext. is_render_call e \<Longrightarrow> uiErrors ext = []"
  by (induction ext rule: uiErrors.induct) simp_all

lemma uiErrors_pieces [simp]:
  "uiErrors (placing s c) = []" "uiErrors (closing cfg seg) = []"
  "uiErrors (closing_last cfg s) = []" "uiErrors (dispatched cfg v tid) = []"
proof -
  show "uiErrors (placing s c) = []" by (simp add: placing_def)
  show c: "uiErrors (closing cfg seg) = []" for seg by (cases seg) (simp_all add: closing_def)
  show "uiErrors (closing_last cfg s) = []" by (simp add: closing_last_def c)
  show "uiErrors (dispatched cfg v tid) = []"
    by (rule uiErrors_render_calls[OF dispatched_render_calls])
qed



section \<open>Segments that no longer change\<close>



section \<open>Evaluating concrete runs\<close>

lemmas run_simps = init_def step_def onPart_def streamTextSegment_open_fields placing_def
  closing_last_def closing_def dispatched_def scheduled_def settle_def resolve_def reject_def

section \<open>The claims\<close>

text \<open>
  C1, as the code has it. In every run: the \<open>done\<close> call on the sink of a tool segment is
  made the moment that segment's own renderer settles, whatever the state of the render
  tasks of earlier segments; what is ordered is the completion-signal chain only. The
  value of \<open>finished\<close> chains the resolvables of all render tasks in the order the
  segments were made; the link made for task \<open>j\<close> is settled exactly when the tasks
  \<open>0 .. j\<close> have all resolved; and the async function of \<open>streamMulti\<close> has returned from
  \<open>await finished\<close> only if every render task has resolved.
\<close>

theorem completion_chain_is_serialised:
  "finished (exec cfg acts init) = chain (length (tasks (exec cfg acts init))) \<and>
   (\<forall>j < length (tasks (exec cfg acts init)).
      settled (tasks (exec cfg acts init)) (the (chain (Suc j))) =
      (\<forall>i \<le> j. resolved (tasks (exec cfg acts init) ! i))) \<and>
   (status (exec cfg acts init) = Completed \<longrightarrow>
      (\<forall>t \<in> set (tasks (exec cfg acts init)). resolved t)) \<and>
   (\<forall>k v. k < length (tasks (exec cfg acts init)) \<and>
      (phase (tasks (exec cfg acts init) ! k) = AwaitingValue (Inr v) \<or>
       phase (tasks (exec cfg acts init) ! k) = AwaitingNext [] (Inr v)) \<longrightarrow>
      trace (step cfg (Settle k) (exec cfg acts init)) =
        trace (exec cfg acts init) @ [ToolUiDone (res (tasks (exec cfg acts init) ! k)) v])"
proof -
  let ?s = "exec cfg acts init"
  note inv = task_inv_exec[of cfg acts]
  have 1: "finished ?s = chain (length (tasks ?s))" using inv by (simp add: task_inv_def)
  have 2: "settled (tasks ?s) (the (chain (Suc j))) = (\<forall>i \<le> j. resolved (tasks ?s ! i))"
    if "j < length (tasks ?s)" for j
    unfolding settled_chain using that by auto
  have 3: "status ?s = Completed \<longrightarrow> (\<forall>t \<in> set (tasks ?s). resolved t)"
    using inv by (simp add: task_inv_def)
  have 4: "trace (step cfg (Settle k) ?s) = trace ?s @ [ToolUiDone (res (tasks ?s ! k)) v]"
    if "k < length (tasks ?s)"
      "phase (tasks ?s ! k) = AwaitingValue (Inr v) \<or> phase (tasks ?s ! k) = AwaitingNext [] (Inr v)"
    for k v
  proof -
    from that(1) have "tasks ?s ! k \<in> set (tasks ?s)" by simp
    with inv have "lastCall (tasks ?s ! k)" by (auto simp: task_inv_def)
    with that show ?thesis
      by (auto simp: step_def settle_def Let_def resolve_def)
  qed
  from 1 2 3 4 show ?thesis by blast
qed

text \<open>
  The claim itself fails on scenario C of the specification: two tool calls whose
  renderers are async generators, the second finishing first. The sink of the second
  segment has received \<open>done\<close> while the render task of the first is still suspended at its
  first \<open>await\<close> and its sink has received nothing.
\<close>

theorem later_segment_settles_first:
  "trace (exec twoStep [Next (ToolCall lookup), Next (ToolCall fetch), Settle 1, Settle 1] init) =
     [CreateStreamableUI 0, SetInitialRemoved, UiUpdate (ToolWrapper 0),
      CreateStreamableUI 1, UiAppend (ToolWrapper 1), OnSegment (ToolCallSegment lookup),
      ToolUiUpdate 1 (Rendered ''loading''), ToolUiDone 1 (Rendered ''{id: 7}'')] \<and>
   segments (exec twoStep [Next (ToolCall lookup), Next (ToolCall fetch), Settle 1, Settle 1] init) =
     [ToolCallSegment lookup, ToolCallSegment fetch] \<and>
   tasks (exec twoStep [Next (ToolCall lookup), Next (ToolCall fetch), Settle 1, Settle 1] init) =
     [\<lparr> res = 0, lastCall = True,
        phase = AwaitingNext [Rendered ''loading''] (Inr (Rendered ''{q: x}'')), resolved = False \<rparr>,
      \<lparr> res = 1, lastCall = True, phase = Returned, resolved = True \<rparr>]"
  by (simp add: run_simps twoStep_def lookup_def fetch_def)

theorem completion_chain_is_serialised_witness:
  "length (tasks (exec twoStep
      [Next (ToolCall lookup), Next (ToolCall fetch), Settle 1, Settle 1, Settle 0] init)) = 2 \<and>
   phase (tasks (exec twoStep
      [Next (ToolCall lookup), Next (ToolCall fetch), Settle 1, Settle 1, Settle 0] init) ! 0) =
     AwaitingNext [] (Inr (Rendered ''{q: x}'')) \<and>
   resolved (tasks (exec twoStep
      [Next (ToolCall lookup), Next (ToolCall fetch), Settle 1, Settle 1, Settle 0] init) ! 1) \<and>
   \<not> settled (tasks (exec twoStep
      [Next (ToolCall lookup), Next (ToolCall fetch), Settle 1, Settle 1, Settle 0] init))
      (Then (Resolvable 0) 1) \<and>
   finished (exec twoStep
      [Next (ToolCall lookup), Next (ToolCall fetch), Settle 1, Settle 1, Settle 0] init) =
     Some (Then (Resolvable 0) 1) \<and>
   trace (exec twoStep
      [Next (ToolCall lookup), Next (ToolCall fetch), Settle 1, Settle 1, Settle 0, Settle 0] init) =
     trace (exec twoStep
      [Next (ToolCall lookup), Next (ToolCall fetch), Settle 1, Settle 1, Settle 0] init) @
     [ToolUiDone 0 (Rendered ''{q: x}'')]"
proof -
  define s where "s = exec twoStep
      [Next (ToolCall lookup), Next (ToolCall fetch), Settle 1, Settle 1, Settle 0] init"
  have ts: "tasks s =
     [\<lparr> res = 0, lastCall = True, phase = AwaitingNext [] (Inr (Rendered ''{q: x}'')), resolved = False \<rparr>,
      \<lparr> res = 1, lastCall = True, phase = Returned, resolved = True \<rparr>]"
    by (simp add: s_def run_simps twoStep_def lookup_def fetch_def)
  note inst = completion_chain_is_serialised[of twoStep
      "[Next (ToolCall lookup), Next (ToolCall fetch), Settle 1, Settle 1, Settle 0]",
      folded s_def]
  have len: "length (tasks s) = 2" by (simp add: ts)
  from inst have f: "finished s = chain (length (tasks s))" by blast
  then have f': "finished s = Some (Then (Resolvable 0) 1)"
    by (simp add: len numeral_2_eq_2)
  from inst have "\<forall>j < length (tasks s).
      settled (tasks s) (the (chain (Suc j))) = (\<forall>i \<le> j. resolved (tasks s ! i))" by blast
  from this[rule_format, of 1]
  have "settled (tasks s) (the (chain (Suc 1))) = (\<forall>i \<le> 1. resolved (tasks s ! i))"
    by (simp add: len del: chain.simps)
  moreover have "\<not> (\<forall>i \<le> 1. resolved (tasks s ! i))"
  proof
    assume "\<forall>i \<le> 1. resolved (tasks s ! i)"
    then have "resolved (tasks s ! 0)" by blast
    then show False by (simp add: ts)
  qed
  moreover have "the (chain (Suc 1)) = Then (Resolvable 0) 1" by simp
  ultimately have ns: "\<not> settled (tasks s) (Then (Resolvable 0) 1)" by (simp del: chain.simps)
  from inst have "\<forall>k v. k < length (tasks s) \<and>
      (phase (tasks s ! k) = AwaitingValue (Inr v) \<or> phase (tasks s ! k) = AwaitingNext [] (Inr v)) \<longrightarrow>
      trace (step twoStep (Settle k) s) = trace s @ [ToolUiDone (res (tasks s ! k)) v]" by blast
  then have "0 < length (tasks s) \<and>
      (phase (tasks s ! 0) = AwaitingValue (Inr (Rendered ''{q: x}'')) \<or>
       phase (tasks s ! 0) = AwaitingNext [] (Inr (Rendered ''{q: x}''))) \<longrightarrow>
      trace (step twoStep (Settle 0) s) = trace s @ [ToolUiDone (res (tasks s ! 0)) (Rendered ''{q: x}'')]"
    by blast
  then have d: "trace (step twoStep (Settle 0) s) = trace s @ [ToolUiDone 0 (Rendered ''{q: x}'')]"
    by (simp add: ts)
  have split: "exec twoStep
      [Next (ToolCall lookup), Next (ToolCall fetch), Settle 1, Settle 1, Settle 0, Settle 0] init =
      step twoStep (Settle 0) s"
    unfolding s_def
    using exec_append[of twoStep
      "[Next (ToolCall lookup), Next (ToolCall fetch), Settle 1, Settle 1, Settle 0]" "[Settle 0]" init]
    by simp
  show ?thesis
    unfolding split s_def[symmetric] using len f' ns d by (simp add: ts)
qed

text \<open>
  C2, as the code has it. When an \<open>error\<close> part is read, the loop throws at once: the open
  segment is not closed (its text sink is not sealed, the observer is not invoked), the
  error is handed to the overall display sink, and the loop has stopped. Whatever happens
  afterwards (more parts in the raw stream, its end, render tasks settling) creates or
  changes no segment and adds no call besides those of render tasks on per-tool sinks.
\<close>

theorem error_part_halts_without_closing:
  assumes "status s = Reading"
  shows "step cfg (Next (ErrorEvent e)) s = s\<lparr> status := Failed, trace := trace s @ [UiError e] \<rparr> \<and>
         segments (exec cfg (Next (ErrorEvent e) # acts) s) = segments s \<and>
         loopCalls (trace (exec cfg (Next (ErrorEvent e) # acts) s)) = loopCalls (trace s) @ [UiError e] \<and>
         status (exec cfg (Next (ErrorEvent e) # acts) s) = Failed"
proof -
  let ?s' = "step cfg (Next (ErrorEvent e)) s"
  have eq: "?s' = s\<lparr> status := Failed, trace := trace s @ [UiError e] \<rparr>"
    using assms by (simp add: step_def onPart_def emit_def)
  have halted: "status ?s' \<noteq> Reading" by (simp add: eq)
  from exec_halted[OF halted, of cfg acts] eq
  show ?thesis by (simp add: loopCalls_def)
qed

text \<open>
  Scenario D of the specification, with an observer: the text segment is neither sealed
  nor notified before the error reaches the display sink, and stays so.
\<close>

theorem scenario_D_leaves_segment_open:
  "trace (exec observed [Next (TextDelta ''ok''), Next (ErrorEvent ''E''), Next Finish] init) =
     [CreateStreamableValue 0 ''ok'', SetInitialRemoved, UiUpdate (TextComponent 0), UiError ''E''] \<and>
   segments (exec observed [Next (TextDelta ''ok''), Next (ErrorEvent ''E''), Next Finish] init) =
     [TextSegment ''ok'' 0]"
  by (simp add: observed_def init_def step_def onPart_def streamTextSegment_def latestSegment_def
      Let_def appendUI_def emit_def addSegment_def markLastSegmentDone_def)

theorem error_part_halts_without_closing_witness:
  "status (exec observed [Next (TextDelta ''ok'')] init) = Reading \<and>
   segments (exec observed [Next (TextDelta ''ok''), Next (ErrorEvent ''E''), Next Finish] init) =
     [TextSegment ''ok'' 0] \<and>
   loopCalls (trace (exec observed [Next (TextDelta ''ok''), Next (ErrorEvent ''E''), Next Finish] init)) =
     [CreateStreamableValue 0 ''ok'', SetInitialRemoved, UiUpdate (TextComponent 0), UiError ''E'']"
proof -
  define s where "s = exec observed [Next (TextDelta ''ok'')] init"
  have r: "status s = Reading"
    and tr: "trace s = [CreateStreamableValue 0 ''ok'', SetInitialRemoved, UiUpdate (TextComponent 0)]"
    and sg: "segments s = [TextSegment ''ok'' 0]"
    by (simp_all add: s_def observed_def init_def step_def onPart_def streamTextSegment_open
        placing_def closing_last_def)
  have split: "exec observed [Next (TextDelta ''ok''), Next (ErrorEvent ''E''), Next Finish] init =
               exec observed (Next (ErrorEvent ''E'') # [Next Finish]) s"
    by (simp add: s_def)
  note hyp = error_part_halts_without_closing[OF r, of observed "''E''" "[Next Finish]"]
  from hyp have "segments (exec observed (Next (ErrorEvent ''E'') # [Next Finish]) s) = segments s"
    by blast
  moreover from hyp have
    "loopCalls (trace (exec observed (Next (ErrorEvent ''E'') # [Next Finish]) s)) =
       loopCalls (trace s) @ [UiError ''E'']"
    by blast
  ultimately show ?thesis
    unfolding split using r by (simp add: tr sg loopCalls_def s_def[symmetric] del: exec.simps)
qed







text \<open>
  C5, as the code has it. In every run in which the loop reads no part after a \<open>finish\<close>
  part, and with an observer supplied, \<open>onSegment\<close> is invoked exactly once per closed
  segment, in closing order: the closing calls of the whole run are, segment by segment
  in segment order, the sealing of the text sink (for a text segment) followed at once by
  the notification, so each notification comes after its segment is sealed and before
  anything of the next segment is closed. The closed segments are all segments but the
  latest, and the latest too once \<open>finish\<close> has been read; the segments handed to the
  observer are the final ones.
\<close>

theorem observer_once_per_closed_segment:
  assumes "onSegment cfg" and "Finish \<notin> set (butlast (consumed acts))"
  shows "closings (trace (exec cfg acts init)) =
           concat (map sealed_then_notified
             (closed_segments (consumed acts) (segments (exec cfg acts init)))) \<and>
         notified (trace (exec cfg acts init)) =
           closed_segments (consumed acts) (segments (exec cfg acts init))"
proof -
  have r: "status init = Reading" by (simp add: init_def)
  have m: "closing cfg = sealed_then_notified"
    using assms(1) by (auto simp: closing_observed)
  from closings_exec[OF open_inv_init r assms(2), of cfg]
  have c: "closings (trace (exec cfg acts init)) =
           concat (map sealed_then_notified
             (closed_segments (consumed acts) (segments (exec cfg acts init))))"
    by (simp add: m)
  have "notified (trace (exec cfg acts init)) = notified (closings (trace (exec cfg acts init)))"
    by (simp add: notified_closings)
  with c show ?thesis by (simp add: notified_sealed)
qed

text \<open>
  The claim itself speaks of all event sequences. A \<open>finish\<close> part calls
  \<open>markLastSegmentDone\<close> on whatever segment is latest, so a second \<open>finish\<close> notifies the
  same segment again: one tool segment, two invocations.
\<close>

theorem second_finish_notifies_again:
  "segments (exec observed [Next (ToolCall lookup), Next Finish, Next Finish] init) =
     [ToolCallSegment lookup] \<and>
   notified (trace (exec observed [Next (ToolCall lookup), Next Finish, Next Finish] init)) =
     [ToolCallSegment lookup, ToolCallSegment lookup]"
  by (simp add: observed_def init_def step_def onPart_def closing_last_def closing_def
      placing_def dispatched_def)

theorem observer_once_per_closed_segment_witness:
  "onSegment observed \<and>
   Finish \<notin> set (butlast (consumed
     [Next (TextDelta ''Let me check''), Next (ToolCall lookup), Next Finish])) \<and>
   notified (trace (exec observed
     [Next (TextDelta ''Let me check''), Next (ToolCall lookup), Next Finish] init)) =
     [TextSegment ''Let me check'' 0, ToolCallSegment lookup]"
proof -
  let ?acts = "[Next (TextDelta ''Let me check''), Next (ToolCall lookup), Next Finish]"
  have o: "onSegment observed" by (simp add: observed_def)
  have f: "Finish \<notin> set (butlast (consumed ?acts))" by simp
  have sg: "segments (exec observed ?acts init) = [TextSegment ''Let me check'' 0, ToolCallSegment lookup]"
    by (simp add: init_def step_def onPart_def streamTextSegment_open_fields)
  from observer_once_per_closed_segment[OF o f] o f sg show ?thesis
    by (simp add: closed_segments_def)
qed





text \<open>
  C8. Handling a \<open>tool-call-delta\<close> part is a no-op: in every state of the pipeline it
  leaves the whole state as it is, so the segment list, every accumulated text, what is
  closed and what is not, and every sink are unchanged, and the observer is not invoked
  (the trace of calls does not grow).
\<close>

theorem tool_call_delta_is_noop: "step cfg (Next (ToolCallDelta d)) s = s"
  by (simp add: step_def onPart_def)

text \<open>
  C9. When the reader reports the end of the stream while the loop reads, \<open>ui.done()\<close> is
  called at once: the step adds exactly that call to the trace and leaves every render
  task as it is; only then does the async function stand at \<open>await finished\<close> (or has
  returned, when no render task was ever started). A render task still suspended in an
  async generator goes on to update its own sink after the overall sink is sealed.
\<close>

theorem display_sealed_while_renderers_run:
  assumes "status s = Reading"
  shows "trace (step cfg End s) = trace s @ [UiDone] \<and>
         tasks (step cfg End s) = tasks s \<and>
         status (step cfg End s) = (if finished s = None then Completed else AwaitingFinished) \<and>
         (\<forall>k v vs out. k < length (tasks s) \<and> phase (tasks s ! k) = AwaitingNext (v # vs) out \<longrightarrow>
            trace (exec cfg [End, Settle k] s) =
              trace s @ [UiDone, ToolUiUpdate (res (tasks s ! k)) v])"
  using assms by (auto simp: step_def settle_def Let_def)

theorem display_sealed_while_renderers_run_witness:
  "status (exec twoStep [Next (ToolCall lookup)] init) = Reading \<and>
   phase (tasks (exec twoStep [Next (ToolCall lookup)] init) ! 0) =
     AwaitingNext [Rendered ''loading''] (Inr (Rendered ''{q: x}'')) \<and>
   trace (exec twoStep [Next (ToolCall lookup), End, Settle 0] init) =
     [CreateStreamableUI 0, SetInitialRemoved, UiUpdate (ToolWrapper 0), UiDone,
      ToolUiUpdate 0 (Rendered ''loading'')] \<and>
   status (exec twoStep [Next (ToolCall lookup), End] init) = AwaitingFinished"
proof -
  define s where "s = exec twoStep [Next (ToolCall lookup)] init"
  have r: "status s = Reading"
    and ts: "tasks s = [\<lparr> res = 0, lastCall = True,
        phase = AwaitingNext [Rendered ''loading''] (Inr (Rendered ''{q: x}'')), resolved = False \<rparr>]"
    and tr: "trace s = [CreateStreamableUI 0, SetInitialRemoved, UiUpdate (ToolWrapper 0)]"
    and fin: "finished s = Some (Resolvable 0)"
    by (simp_all add: s_def run_simps twoStep_def lookup_def streamToolSegment_finished)
  note inst = display_sealed_while_renderers_run[OF r, of twoStep]
  from inst have st: "status (step twoStep End s) = AwaitingFinished" by (simp add: fin)
  from inst have "\<forall>k v vs out. k < length (tasks s) \<and> phase (tasks s ! k) = AwaitingNext (v # vs) out \<longrightarrow>
            trace (exec twoStep [End, Settle k] s) =
              trace s @ [UiDone, ToolUiUpdate (res (tasks s ! k)) v]" by blast
  then have "0 < length (tasks s) \<and>
       phase (tasks s ! 0) = AwaitingNext (Rendered ''loading'' # []) (Inr (Rendered ''{q: x}'')) \<longrightarrow>
       trace (exec twoStep [End, Settle 0] s) =
         trace s @ [UiDone, ToolUiUpdate (res (tasks s ! 0)) (Rendered ''loading'')]" by blast
  then have u: "trace (exec twoStep [End, Settle 0] s) =
         trace s @ [UiDone, ToolUiUpdate 0 (Rendered ''loading'')]"
    by (simp add: ts)
  have e1: "exec twoStep [Next (ToolCall lookup), End, Settle 0] init = exec twoStep [End, Settle 0] s"
    and e2: "exec twoStep [Next (ToolCall lookup), End] init = step twoStep End s"
    by (simp_all add: s_def)
  show ?thesis
    unfolding e1 e2 s_def[symmetric] using r st u by (simp add: ts tr del: exec.simps)
qed

text \<open>
  C10. When the stream ends and the loop has read neither a \<open>finish\<close> nor an \<open>error\<close>
  part, then, with an observer supplied and whatever happens afterwards: the overall
  display sink has received \<open>done()\<close>; the observer has been invoked for every segment but
  the last, so one time fewer than there are segments; and if the last segment is a text
  segment, its sink has not been sealed.
\<close>

theorem unfinished_stream_leaves_last_segment_open:
  assumes "onSegment cfg" and "End \<in> set acts"
    and "Finish \<notin> set (consumed acts)" and "\<forall>e. ErrorEvent e \<notin> set (consumed acts)"
  shows "UiDone \<in> set (trace (exec cfg acts init)) \<and>
         notified (trace (exec cfg acts init)) = butlast (segments (exec cfg acts init)) \<and>
         length (notified (trace (exec cfg acts init))) = length (segments (exec cfg acts init)) - 1 \<and>
         (\<forall>t sid. segments (exec cfg acts init) \<noteq> [] \<and>
                  last (segments (exec cfg acts init)) = TextSegment t sid \<longrightarrow>
                  StreamDone sid \<notin> set (trace (exec cfg acts init)))"
proof -
  let ?s = "exec cfg acts init"
  have r: "status init = Reading" by (simp add: init_def)
  have m: "closing cfg = sealed_then_notified"
    using assms(1) by (auto simp: closing_observed)
  have nf: "Finish \<notin> set (butlast (consumed acts))"
    using assms(3) by (meson in_set_butlastD)
  from closings_exec[OF open_inv_init r nf, of cfg] assms(3)
  have c: "closings (trace ?s) = concat (map sealed_then_notified (butlast (segments ?s)))"
    by (simp add: m closed_segments_def)
  have "notified (trace ?s) = notified (closings (trace ?s))"
    by (simp add: notified_closings)
  with c have n: "notified (trace ?s) = butlast (segments ?s)" by (simp add: notified_sealed)
  have d: "UiDone \<in> set (trace ?s)" by (rule end_seals[OF r assms(2) assms(4)])
  have o: "StreamDone sid \<notin> set (trace ?s)"
    if "segments ?s \<noteq> []" "last (segments ?s) = TextSegment t sid" for t sid
  proof
    assume "StreamDone sid \<in> set (trace ?s)"
    then have "StreamDone sid \<in> set (closings (trace ?s))" by (rule closings_mem)
    with c have "sid \<in> set (streams (butlast (segments ?s)))" by (simp add: sealed_streams)
    moreover have "distinct (streams (segments ?s))"
      using streams_inv_exec[of cfg acts] by (simp add: streams_inv_def)
    ultimately show False using last_stream_fresh[OF _ that] by blast
  qed
  from d n o show ?thesis by simp
qed

theorem unfinished_stream_leaves_last_segment_open_witness:
  "onSegment observed \<and>
   End \<in> set [Next (TextDelta ''Hi''), Next (ToolCall lookup), Next (TextDelta ''there''), End] \<and>
   Finish \<notin> set (consumed
     [Next (TextDelta ''Hi''), Next (ToolCall lookup), Next (TextDelta ''there''), End]) \<and>
   segments (exec observed
     [Next (TextDelta ''Hi''), Next (ToolCall lookup), Next (TextDelta ''there''), End] init) =
     [TextSegment ''Hi'' 0, ToolCallSegment lookup, TextSegment ''there'' 1] \<and>
   notified (trace (exec observed
     [Next (TextDelta ''Hi''), Next (ToolCall lookup), Next (TextDelta ''there''), End] init)) =
     [TextSegment ''Hi'' 0, ToolCallSegment lookup] \<and>
   StreamDone 1 \<notin> set (trace (exec observed
     [Next (TextDelta ''Hi''), Next (ToolCall lookup), Next (TextDelta ''there''), End] init)) \<and>
   UiDone \<in> set (trace (exec observed
     [Next (TextDelta ''Hi''), Next (ToolCall lookup), Next (TextDelta ''there''), End] init))"
proof -
  let ?acts = "[Next (TextDelta ''Hi''), Next (ToolCall lookup), Next (TextDelta ''there''), End]"
  have o: "onSegment observed" by (simp add: observed_def)
  have e: "End \<in> set ?acts" by simp
  have f: "Finish \<notin> set (consumed ?acts)" by simp
  have x: "\<forall>e. ErrorEvent e \<notin> set (consumed ?acts)" by simp
  have sg: "segments (exec observed ?acts init) =
            [TextSegment ''Hi'' 0, ToolCallSegment lookup, TextSegment ''there'' 1]"
    by (simp add: init_def step_def onPart_def streamTextSegment_open_fields)
  note inst = unfinished_stream_leaves_last_segment_open[OF o e f x]
  from inst have 1: "UiDone \<in> set (trace (exec observed ?acts init))" by blast
  from inst have 2: "notified (trace (exec observed ?acts init)) = butlast (segments (exec observed ?acts init))"
    by blast
  from inst have "\<forall>t sid. segments (exec observed ?acts init) \<noteq> [] \<and>
                  last (segments (exec observed ?acts init)) = TextSegment t sid \<longrightarrow>
                  StreamDone sid \<notin> set (trace (exec observed ?acts init))" by blast
  then have 3: "StreamDone 1 \<notin> set (trace (exec observed ?acts init))"
    unfolding sg by simp
  from o e f sg 1 2 3 show ?thesis by (simp del: exec.simps)
qed

end
